theory Spec2Isabelle
  imports Complex_Main "HOL-Library.Multiset"
begin

section \<open>The unordered set of hash.h\<close>

text \<open>
  \<^verbatim>\<open>custom::unordered_set<T, Hash, EqPred, A>\<close> is a hash table with separate chaining: a
  vector of buckets, each bucket a list of elements, a count of elements and a maximum load
  factor. The embedding follows hash.h function by function. The hash policy \<open>Hash()\<close> is a
  parameter \<open>h\<close> of every operation that hashes; \<open>size_t\<close> values are natural numbers
  (no operation modelled here adds or multiplies them, so none can wrap). Where the C++ has
  undefined behaviour (a remainder by zero, an index outside the bucket array, a float too
  large for \<^verbatim>\<open>size_t\<close>) the model returns \<open>None\<close>.
\<close>

subsection \<open>The collaborators: list.h and vector.h\<close>

text \<open>
  Modelled from the spec: the bucket sequence collaborator \<^verbatim>\<open>custom::list\<close> (list.h is not
  among the sources). A bucket is the sequence of its elements in insertion order;
  \<^verbatim>\<open>push_back\<close> appends to the end (\<open>xs @ [x]\<close>), \<^verbatim>\<open>empty\<close> tests for the empty sequence.
  A list iterator is a position within one bucket's element sequence: \<open>Some i\<close> stands at
  the element of index \<open>i\<close>, \<open>None\<close> is the position past the last element, which is also
  what \<^verbatim>\<open>end()\<close> of every list and the default constructor give.
\<close>

type_synonym list_iterator = "nat option"

text \<open>Modelled from the spec: \<^verbatim>\<open>list::begin()\<close>, the first element's position, or the end
  position when the list is empty.\<close>

definition list_begin :: "'a list \<Rightarrow> list_iterator" where
  "list_begin xs = (if xs = [] then None else Some 0)"

text \<open>Modelled from the spec: \<^verbatim>\<open>list::end()\<close>.\<close>

definition list_end :: "'a list \<Rightarrow> list_iterator" where
  "list_end xs = None"

text \<open>Modelled from the spec: \<^verbatim>\<open>list::iterator::operator++\<close>, forward iteration within the
  list \<open>xs\<close> the position belongs to; advancing from the last element reaches the end
  position, and the end position stays where it is.\<close>

fun list_next :: "'a list \<Rightarrow> list_iterator \<Rightarrow> list_iterator" where
  "list_next xs None = None"
| "list_next xs (Some i) = (if Suc i < length xs then Some (Suc i) else None)"

text \<open>Modelled from the spec: \<^verbatim>\<open>list::find(t)\<close>, the position of the first element equal
  to \<open>t\<close>, or the end position.\<close>

fun list_find :: "'a list \<Rightarrow> 'a \<Rightarrow> list_iterator" where
  "list_find [] t = None"
| "list_find (x # xs) t = (if x = t then Some 0 else map_option Suc (list_find xs t))"

text \<open>
  Modelled from the spec: the bucket array collaborator \<^verbatim>\<open>custom::vector\<close> (vector.h is not
  among the sources): a sequence with index access whose constructor \<^verbatim>\<open>vector(n)\<close> makes
  \<open>n\<close> default elements, here \<open>n\<close> empty buckets. A vector iterator is a position in the
  bucket array: \<open>Some i\<close> is \<^verbatim>\<open>iterator(i, buckets)\<close>, so that \<^verbatim>\<open>buckets.begin()\<close> is
  \<open>Some 0\<close> and \<^verbatim>\<open>buckets.end()\<close> is \<open>Some (length buckets)\<close>; \<open>None\<close> is the default
  constructed iterator, which refers to no vector.
\<close>

type_synonym vector_iterator = "nat option"

subsection \<open>Single precision numbers\<close>

text \<open>
  \<^verbatim>\<open>maxLoadFactor\<close> and the results of \<^verbatim>\<open>load_factor\<close> are C++ \<^verbatim>\<open>float\<close>s. The model
  covers the finite non-negative ones: \<open>Float32 m e\<close> is the number \<open>m * 2 ^ e\<close>. Every
  operation rounds its exact result to the nearest number with a 24 bit significand, ties
  to the even significand, as IEEE 754 single precision does; numbers below \<open>2 ^ -126\<close>
  are spaced \<open>2 ^ -149\<close> apart (the subnormal range). The exponent is not bounded above:
  a result of \<open>2 ^ 128\<close> or more, an infinity in C++, is caught where it is converted to
  \<^verbatim>\<open>size_t\<close>.
\<close>

datatype float32 = Float32 nat int

text \<open>The rational number a \<open>float32\<close> stands for.\<close>

fun float_val :: "float32 \<Rightarrow> rat" where
  "float_val (Float32 m e) =
     (if 0 \<le> e then of_nat m * 2 ^ nat e else of_nat m / 2 ^ nat (- e))"

text \<open>The number of binary digits of \<open>n\<close>.\<close>

fun bitlen :: "nat \<Rightarrow> nat" where
  "bitlen n = (if n = 0 then 0 else Suc (bitlen (n div 2)))"

declare bitlen.simps [simp del]

text \<open>The binary exponent of the fraction \<open>p / q\<close>, for positive \<open>p\<close> and \<open>q\<close>: the
  \<open>e\<close> with \<open>2 ^ e \<le> p / q < 2 ^ (e + 1)\<close>.\<close>

definition ilog2 :: "nat \<Rightarrow> nat \<Rightarrow> int" where
  "ilog2 p q =
     (let d = int (bitlen p) - int (bitlen q)
      in if q * 2 ^ nat d \<le> p * 2 ^ nat (- d) then d else d - 1)"

text \<open>\<open>p / q\<close> rounded to the nearest integer, a tie to the even one.\<close>

definition round_half_even :: "nat \<Rightarrow> nat \<Rightarrow> nat" where
  "round_half_even p q =
     (let n = p div q; r = p mod q
      in if 2 * r < q then n
         else if q < 2 * r then n + 1
         else if even n then n else n + 1)"

text \<open>\<open>p / q\<close> rounded to single precision.\<close>

definition round_float :: "nat \<Rightarrow> nat \<Rightarrow> float32" where
  "round_float p q =
     (if p = 0 then Float32 0 0
      else let e = max (ilog2 p q - 23) (- 149);
               m = round_half_even (p * 2 ^ nat (- e)) (q * 2 ^ nat e)
           in if m = 2 ^ 24 then Float32 (2 ^ 23) (e + 1) else Float32 m e)"

text \<open>The conversion of a \<^verbatim>\<open>size_t\<close> to \<^verbatim>\<open>float\<close>.\<close>

definition float_of_nat :: "nat \<Rightarrow> float32" where
  "float_of_nat n = round_float n 1"

text \<open>Division; \<open>None\<close> for a zero divisor, whose quotient is no finite number.\<close>

fun float_div :: "float32 \<Rightarrow> float32 \<Rightarrow> float32 option" where
  "float_div (Float32 m1 e1) (Float32 m2 e2) =
     (if m2 = 0 then None
      else Some (round_float (m1 * 2 ^ nat (e1 - e2)) (m2 * 2 ^ nat (e2 - e1))))"

text \<open>\<^verbatim>\<open>std::ceil\<close>, whose result is an integer and so needs no rounding.\<close>

fun float_ceil :: "float32 \<Rightarrow> nat" where
  "float_ceil (Float32 m e) =
     (if 0 \<le> e then m * 2 ^ nat e else (m + 2 ^ nat (- e) - 1) div 2 ^ nat (- e))"

text \<open>The conversion \<^verbatim>\<open>(size_t)\<close> of an integral \<^verbatim>\<open>float\<close>: undefined from \<open>2 ^ 64\<close> on.\<close>

definition size_t_of_integral :: "nat \<Rightarrow> nat option" where
  "size_t_of_integral n = (if n < 2 ^ 64 then Some n else None)"

subsection \<open>The set and its iterators\<close>

text \<open>
  The three private members. \<open>numElements\<close> is a C++ \<^verbatim>\<open>int\<close>; \<^verbatim>\<open>size()\<close> returns it as
  a \<^verbatim>\<open>size_t\<close>, a conversion that reduces modulo \<open>2 ^ 64\<close>.
\<close>

record 'a unordered_set =
  buckets :: "'a list list"
  numElements :: int
  maxLoadFactor :: float32

text \<open>The members of \<^verbatim>\<open>unordered_set::iterator\<close>, in the order of their declaration.\<close>

record iterator =
  itVectorEnd :: vector_iterator
  itList :: list_iterator
  itVector :: vector_iterator

record local_iterator =
  l_itList :: list_iterator

text \<open>\<^verbatim>\<open>unordered_set()\<close> and \<^verbatim>\<open>unordered_set(size_t numBuckets)\<close>.\<close>

definition unordered_set_n :: "nat \<Rightarrow> 'a unordered_set" where
  "unordered_set_n numBuckets =
     \<lparr>buckets = replicate numBuckets [], numElements = 0, maxLoadFactor = float_of_nat 1\<rparr>"

definition unordered_set_default :: "'a unordered_set" where
  "unordered_set_default = unordered_set_n 8"

text \<open>\<^verbatim>\<open>iterator()\<close>: every member default constructed.\<close>

definition iterator_default :: iterator where
  "iterator_default = \<lparr>itVectorEnd = None, itList = None, itVector = None\<rparr>"

subsection \<open>Status\<close>

definition size_us :: "'a unordered_set \<Rightarrow> nat" where
  "size_us s = nat (numElements s mod 2 ^ 64)"

definition bucket_count :: "'a unordered_set \<Rightarrow> nat" where
  "bucket_count s = length (buckets s)"

text \<open>\<^verbatim>\<open>return size() / bucket_count();\<close> divides two \<^verbatim>\<open>size_t\<close> values, so the quotient
  is the integer quotient; the \<^verbatim>\<open>return\<close> then converts it to \<^verbatim>\<open>float\<close>.\<close>

definition load_factor :: "'a unordered_set \<Rightarrow> float32 option" where
  "load_factor s =
     (if bucket_count s = 0 then None
      else Some (float_of_nat (size_us s div bucket_count s)))"

definition max_load_factor :: "'a unordered_set \<Rightarrow> float32" where
  "max_load_factor s = maxLoadFactor s"

text \<open>The setter \<^verbatim>\<open>void max_load_factor(float m)\<close>.\<close>

definition set_max_load_factor :: "float32 \<Rightarrow> 'a unordered_set \<Rightarrow> 'a unordered_set" where
  "set_max_load_factor m s = s\<lparr>maxLoadFactor := m\<rparr>"

text \<open>\<^verbatim>\<open>(size_t)std::ceil(num / maxLoadFactor)\<close>: \<open>num\<close> is converted to \<^verbatim>\<open>float\<close> for the
  division.\<close>

definition min_buckets_required :: "nat \<Rightarrow> 'a unordered_set \<Rightarrow> nat option" where
  "min_buckets_required num s =
     (case float_div (float_of_nat num) (maxLoadFactor s) of
        None \<Rightarrow> None
      | Some q \<Rightarrow> size_t_of_integral (float_ceil q))"

subsection \<open>Access\<close>

text \<open>\<^verbatim>\<open>Hash()(t) % bucket_count()\<close>.\<close>

definition bucket :: "('a \<Rightarrow> nat) \<Rightarrow> 'a unordered_set \<Rightarrow> 'a \<Rightarrow> nat option" where
  "bucket h s t = (if bucket_count s = 0 then None else Some (h t mod bucket_count s))"

text \<open>\<^verbatim>\<open>iterator(buckets.end(), buckets.end(), buckets[0].end())\<close>.\<close>

definition end_us :: "'a unordered_set \<Rightarrow> iterator option" where
  "end_us s =
     (if bucket_count s = 0 then None
      else Some \<lparr>itVectorEnd = Some (bucket_count s),
                 itList = list_end (buckets s ! 0),
                 itVector = Some (bucket_count s)\<rparr>)"

definition find_us :: "('a \<Rightarrow> nat) \<Rightarrow> 'a unordered_set \<Rightarrow> 'a \<Rightarrow> iterator option" where
  "find_us h s t =
     (case bucket h s t of
        None \<Rightarrow> None
      | Some iBucket \<Rightarrow>
          (let itList = list_find (buckets s ! iBucket) t
           in if itList \<noteq> list_end (buckets s ! iBucket)
              then Some \<lparr>itVectorEnd = Some (bucket_count s),
                         itList = itList,
                         itVector = Some iBucket\<rparr>
              else end_us s))"

text \<open>\<^verbatim>\<open>operator *\<close> of an iterator into the bucket array \<open>bs\<close>: the element at its position.\<close>

definition iterator_deref :: "'a list list \<Rightarrow> iterator \<Rightarrow> 'a option" where
  "iterator_deref bs it =
     (case (itVector it, itList it) of
        (Some v, Some i) \<Rightarrow>
          (if v < length bs \<and> i < length (bs ! v) then Some (bs ! v ! i) else None)
      | _ \<Rightarrow> None)"

subsection \<open>insert and erase\<close>

text \<open>
  Both return the new state of the set and the value returned. The body of each is a
  single \<^verbatim>\<open>return\<close> of a default constructed iterator (for \<^verbatim>\<open>insert\<close> paired with
  \<^verbatim>\<open>true\<close>); the statements that would search, grow, store and count are inside a
  comment, so the set is returned as it came.
\<close>

definition insert_us :: "'a \<Rightarrow> 'a unordered_set \<Rightarrow> 'a unordered_set \<times> (iterator \<times> bool)" where
  "insert_us t s = (s, (iterator_default, True))"

definition erase :: "'a \<Rightarrow> 'a unordered_set \<Rightarrow> 'a unordered_set \<times> iterator" where
  "erase t s = (s, iterator_default)"

text \<open>A loop of \<^verbatim>\<open>insert\<close> calls, as the range constructor and the assignment of an
  initializer list run it.\<close>

fun insert_each :: "'a list \<Rightarrow> 'a unordered_set \<Rightarrow> 'a unordered_set" where
  "insert_each [] s = s"
| "insert_each (t # ts) s = insert_each ts (fst (insert_us t s))"

subsection \<open>rehash and reserve\<close>

text \<open>
  The inner loop of \<^verbatim>\<open>rehash\<close>: every element of one old bucket, front to back, is pushed
  to the back of the new bucket \<open>Hash()(*it) % numBuckets\<close>.
\<close>

fun rehash_bucket :: "('a \<Rightarrow> nat) \<Rightarrow> nat \<Rightarrow> 'a list \<Rightarrow> 'a list list \<Rightarrow> 'a list list" where
  "rehash_bucket h numBuckets [] newBuckets = newBuckets"
| "rehash_bucket h numBuckets (x # xs) newBuckets =
     (let newIndex = h x mod numBuckets
      in rehash_bucket h numBuckets xs
           (newBuckets[newIndex := newBuckets ! newIndex @ [x]]))"

text \<open>The outer loop: the old buckets in order.\<close>

fun rehash_buckets :: "('a \<Rightarrow> nat) \<Rightarrow> nat \<Rightarrow> 'a list list \<Rightarrow> 'a list list \<Rightarrow> 'a list list" where
  "rehash_buckets h numBuckets [] newBuckets = newBuckets"
| "rehash_buckets h numBuckets (b # bs) newBuckets =
     rehash_buckets h numBuckets bs (rehash_bucket h numBuckets b newBuckets)"

definition rehash :: "('a \<Rightarrow> nat) \<Rightarrow> nat \<Rightarrow> 'a unordered_set \<Rightarrow> 'a unordered_set" where
  "rehash h numBuckets s =
     (if numBuckets \<le> bucket_count s then s
      else s\<lparr>buckets := rehash_buckets h numBuckets (buckets s) (replicate numBuckets [])\<rparr>)"

text \<open>\<^verbatim>\<open>rehash(min_buckets_required(num))\<close>.\<close>

definition reserve :: "('a \<Rightarrow> nat) \<Rightarrow> nat \<Rightarrow> 'a unordered_set \<Rightarrow> 'a unordered_set option" where
  "reserve h num s = map_option (\<lambda>c. rehash h c s) (min_buckets_required num s)"

subsection \<open>Advancing the iterators\<close>

text \<open>
  The loop \<^verbatim>\<open>while (itVector != itVectorEnd && (*itVector).empty()) ++itVector;\<close> of the
  prefix increment, on the position \<open>v\<close> of \<open>itVector\<close>. Reading a bucket at a position
  outside the array is undefined.
\<close>

function skip_empty :: "'a list list \<Rightarrow> vector_iterator \<Rightarrow> nat \<Rightarrow> nat option" where
  "skip_empty bs vEnd v =
     (if Some v = vEnd then Some v
      else if length bs \<le> v then None
      else if bs ! v = [] then skip_empty bs vEnd (Suc v)
      else Some v)"
  by pat_completeness auto
termination
  by (relation "measure (\<lambda>(bs, vEnd, v). length bs - v)") auto

declare skip_empty.simps [simp del]

text \<open>\<^verbatim>\<open>iterator::operator ++ ()\<close> on an iterator into the bucket array \<open>bs\<close>.\<close>

definition iterator_inc :: "'a list list \<Rightarrow> iterator \<Rightarrow> iterator option" where
  "iterator_inc bs it =
     (if itVector it = itVectorEnd it then Some it
      else case itVector it of
        None \<Rightarrow> None
      | Some v \<Rightarrow>
          if length bs \<le> v then None
          else let l = list_next (bs ! v) (itList it)
               in if l \<noteq> list_end (bs ! v) then Some (it\<lparr>itList := l\<rparr>)
                  else case skip_empty bs (itVectorEnd it) (Suc v) of
                    None \<Rightarrow> None
                  | Some v' \<Rightarrow>
                      if Some v' \<noteq> itVectorEnd it
                      then Some (it\<lparr>itList := list_begin (bs ! v'), itVector := Some v'\<rparr>)
                      else Some (it\<lparr>itList := l, itVector := Some v'\<rparr>))"

text \<open>
  \<^verbatim>\<open>iterator::operator ++ (int postfix)\<close>: a copy of the iterator is taken, the
  \<^verbatim>\<open>int\<close> argument is incremented and the copy returned. The result is the iterator
  afterwards and the value returned.
\<close>

definition iterator_post_inc :: "iterator \<Rightarrow> int \<Rightarrow> iterator \<times> iterator" where
  "iterator_post_inc it postfix = (let temp = it; postfix' = postfix + 1 in (it, temp))"

text \<open>\<^verbatim>\<open>local_iterator::operator ++ ()\<close>, within the bucket \<open>xs\<close>, and
  \<^verbatim>\<open>local_iterator::operator ++ (int postfix)\<close>, which is \<^verbatim>\<open>return *this;\<close>.\<close>

definition local_iterator_inc :: "'a list \<Rightarrow> local_iterator \<Rightarrow> local_iterator" where
  "local_iterator_inc xs it = it\<lparr>l_itList := list_next xs (l_itList it)\<rparr>"

definition local_iterator_post_inc :: "local_iterator \<Rightarrow> int \<Rightarrow> local_iterator \<times> local_iterator" where
  "local_iterator_post_inc it postfix = (it, it)"

text \<open>Every element of bucket \<open>i\<close> hashes to \<open>i\<close>: the placement invariant of the table.\<close>

definition well_placed :: "('a \<Rightarrow> nat) \<Rightarrow> 'a list list \<Rightarrow> bool" where
  "well_placed h bs = (\<forall>i < length bs. \<forall>e \<in> set (bs ! i). h e mod length bs = i)"

subsection \<open>States used as examples\<close>

text \<open>Two buckets holding three elements, hashed by the identity.\<close>

definition two_buckets :: "nat unordered_set" where
  "two_buckets = \<lparr>buckets = [[4, 2], [3]], numElements = 3, maxLoadFactor = float_of_nat 1\<rparr>"

text \<open>Three buckets, the middle one empty.\<close>

definition three_buckets :: "nat unordered_set" where
  "three_buckets = \<lparr>buckets = [[3, 6], [], [5]], numElements = 3, maxLoadFactor = float_of_nat 1\<rparr>"

text \<open>The set built by \<^verbatim>\<open>unordered_set()\<close> after \<^verbatim>\<open>max_load_factor(0.75)\<close>.\<close>

definition three_quarters :: "nat unordered_set" where
  "three_quarters = set_max_load_factor (round_float 3 4) unordered_set_default"

text \<open>Eight buckets holding the element 3.\<close>

definition one_in_eight :: "nat unordered_set" where
  "one_in_eight =
     \<lparr>buckets = [[], [], [], [3], [], [], [], []], numElements = 1,
      maxLoadFactor = float_of_nat 1\<rparr>"

text \<open>Eight buckets holding seven and nine elements.\<close>

definition seven_in_eight :: "nat unordered_set" where
  "seven_in_eight =
     \<lparr>buckets = [[0], [1], [2], [3], [4], [5], [6], []], numElements = 7,
      maxLoadFactor = float_of_nat 1\<rparr>"

definition nine_in_eight :: "nat unordered_set" where
  "nine_in_eight =
     \<lparr>buckets = [[0, 8], [1], [2], [3], [4], [5], [6], [7]], numElements = 9,
      maxLoadFactor = float_of_nat 1\<rparr>"

section \<open>Evaluation of the examples\<close>

lemma replicate_4: "replicate 4 x = [x, x, x, x]"
  by (simp add: numeral_eq_Suc)

lemma replicate_8: "replicate 8 x = [x, x, x, x, x, x, x, x]"
  by (simp add: numeral_eq_Suc)

lemma float_of_nat_1: "float_of_nat 1 = Float32 8388608 (- 23)"
  by (simp add: float_of_nat_def round_float_def ilog2_def bitlen.simps round_half_even_def Let_def)

lemma float_of_nat_Suc_0: "float_of_nat (Suc 0) = Float32 8388608 (- 23)"
  using float_of_nat_1 by simp

lemma float_of_nat_0: "float_of_nat 0 = Float32 0 0"
  by (simp add: float_of_nat_def round_float_def)

section \<open>Properties of rehash\<close>

lemma mset_concat_push_back:
  assumes "i < length nb"
  shows "mset (concat (nb[i := nb ! i @ [x]])) = mset (concat nb) + {#x#}"
proof -
  have "concat (nb[i := nb ! i @ [x]])
      = concat (take i nb) @ (nb ! i @ [x]) @ concat (drop (Suc i) nb)"
    using assms by (simp add: upd_conv_take_nth_drop)
  moreover have "concat nb = concat (take i nb) @ nb ! i @ concat (drop (Suc i) nb)"
    using assms by (metis concat.simps(2) concat_append id_take_nth_drop)
  ultimately show ?thesis by simp
qed

lemma length_rehash_bucket [simp]:
  "length (rehash_bucket h n xs nb) = length nb"
  by (induction xs arbitrary: nb) (simp_all add: Let_def)

lemma length_rehash_buckets [simp]:
  "length (rehash_buckets h n bs nb) = length nb"
  by (induction bs arbitrary: nb) simp_all

lemma mset_rehash_bucket:
  "length nb = n \<Longrightarrow> 0 < n \<Longrightarrow>
   mset (concat (rehash_bucket h n xs nb)) = mset (concat nb) + mset xs"
  by (induction xs arbitrary: nb) (simp_all add: Let_def mset_concat_push_back)

lemma mset_rehash_buckets:
  "length nb = n \<Longrightarrow> 0 < n \<Longrightarrow>
   mset (concat (rehash_buckets h n bs nb)) = mset (concat nb) + mset (concat bs)"
  by (induction bs arbitrary: nb) (simp_all add: mset_rehash_bucket)

lemma well_placed_push_back:
  assumes "well_placed h nb" "0 < length nb"
  shows "well_placed h (nb[h x mod length nb := nb ! (h x mod length nb) @ [x]])"
  using assms by (auto simp: well_placed_def nth_list_update)

lemma well_placed_rehash_bucket:
  "well_placed h nb \<Longrightarrow> length nb = n \<Longrightarrow> 0 < n \<Longrightarrow> well_placed h (rehash_bucket h n xs nb)"
proof (induction xs arbitrary: nb)
  case Nil
  then show ?case by simp
next
  case (Cons x xs)
  from Cons.prems have "well_placed h (nb[h x mod n := nb ! (h x mod n) @ [x]])"
    using well_placed_push_back [of h nb x] by simp
  with Cons.prems show ?case
    by (simp add: Let_def Cons.IH)
qed

lemma well_placed_rehash_buckets:
  "well_placed h nb \<Longrightarrow> length nb = n \<Longrightarrow> 0 < n \<Longrightarrow> well_placed h (rehash_buckets h n bs nb)"
  by (induction bs arbitrary: nb) (simp_all add: well_placed_rehash_bucket)

lemma well_placed_replicate: "well_placed h (replicate n [])"
  by (simp add: well_placed_def)

lemma bucket_count_rehash: "bucket_count (rehash h n s) = max n (bucket_count s)"
  by (simp add: rehash_def bucket_count_def)

text \<open>
  Claim C6. For every call \<^verbatim>\<open>rehash(n)\<close>: if \<open>n\<close> is at most the current bucket count the
  set is left completely unchanged; otherwise, after the call, the bucket count is \<open>n\<close>,
  every element resides in bucket \<open>hash(e) % n\<close>, the set holds exactly the same elements
  as before (as a multiset, hence also as a set), and \<^verbatim>\<open>size()\<close> is unchanged.
\<close>

theorem rehash_correct:
  "(n \<le> bucket_count s \<longrightarrow> rehash h n s = s) \<and>
   (bucket_count s < n \<longrightarrow>
      bucket_count (rehash h n s) = n \<and>
      (\<forall>i < n. \<forall>e \<in> set (buckets (rehash h n s) ! i). h e mod n = i) \<and>
      mset (concat (buckets (rehash h n s))) = mset (concat (buckets s)) \<and>
      set (concat (buckets (rehash h n s))) = set (concat (buckets s)) \<and>
      size_us (rehash h n s) = size_us s \<and>
      numElements (rehash h n s) = numElements s \<and>
      maxLoadFactor (rehash h n s) = maxLoadFactor s)"
proof (intro conjI impI)
  assume "n \<le> bucket_count s"
  then show "rehash h n s = s" by (simp add: rehash_def)
next
  assume grow: "bucket_count s < n"
  let ?nb = "rehash_buckets h n (buckets s) (replicate n [])"
  have b: "buckets (rehash h n s) = ?nb"
    using grow by (simp add: rehash_def)
  have pos: "0 < n" using grow by simp
  show "bucket_count (rehash h n s) = n"
    by (simp add: bucket_count_def b)
  have "well_placed h ?nb"
    using pos by (intro well_placed_rehash_buckets well_placed_replicate) simp_all
  then show "\<forall>i < n. \<forall>e \<in> set (buckets (rehash h n s) ! i). h e mod n = i"
    by (simp add: well_placed_def b)
  show m: "mset (concat (buckets (rehash h n s))) = mset (concat (buckets s))"
    using pos by (simp add: b mset_rehash_buckets)
  show "set (concat (buckets (rehash h n s))) = set (concat (buckets s))"
    using m by (rule mset_eq_setD)
  show "size_us (rehash h n s) = size_us s"
    using grow by (simp add: rehash_def size_us_def)
  show "numElements (rehash h n s) = numElements s"
    using grow by (simp add: rehash_def)
  show "maxLoadFactor (rehash h n s) = maxLoadFactor s"
    using grow by (simp add: rehash_def)
qed

lemma buckets_rehash_two_buckets: "buckets (rehash id 4 two_buckets) = [[4], [], [2], [3]]"
  by (simp add: two_buckets_def bucket_count_def rehash_def replicate_4)

lemma bucket_count_two_buckets: "bucket_count two_buckets = 2"
  by (simp add: two_buckets_def bucket_count_def)

theorem rehash_correct_witness:
  "bucket_count two_buckets < 4 \<and>
   buckets (rehash id 4 two_buckets) = [[4], [], [2], [3]] \<and>
   bucket_count (rehash id 4 two_buckets) = 4 \<and>
   mset (concat (buckets (rehash id 4 two_buckets))) = mset (concat (buckets two_buckets)) \<and>
   size_us (rehash id 4 two_buckets) = 3 \<and>
   2 \<le> bucket_count two_buckets \<and>
   rehash id 2 two_buckets = two_buckets"
  using rehash_correct [of 4 two_buckets id] rehash_correct [of 2 two_buckets id]
  by (simp add: buckets_rehash_two_buckets bucket_count_two_buckets) (simp add: two_buckets_def size_us_def)

section \<open>Properties of the iterators\<close>

lemma skip_empty_found:
  "v \<le> j \<Longrightarrow> j < length bs \<Longrightarrow> bs ! j \<noteq> [] \<Longrightarrow> (\<forall>k. v \<le> k \<and> k < j \<longrightarrow> bs ! k = []) \<Longrightarrow>
   skip_empty bs (Some (length bs)) v = Some j"
proof (induction "j - v" arbitrary: v)
  case 0
  then have "v = j" by simp
  with 0 show ?case by (simp add: skip_empty.simps)
next
  case (Suc d)
  then have "v < j" "bs ! v = []" by auto
  moreover have "skip_empty bs (Some (length bs)) (Suc v) = Some j"
    using Suc.prems Suc.hyps(2) by (intro Suc.hyps(1)) auto
  ultimately show ?case
    using Suc.prems by (subst skip_empty.simps) simp
qed

lemma skip_empty_end:
  "v \<le> length bs \<Longrightarrow> (\<forall>k. v \<le> k \<and> k < length bs \<longrightarrow> bs ! k = []) \<Longrightarrow>
   skip_empty bs (Some (length bs)) v = Some (length bs)"
proof (induction "length bs - v" arbitrary: v)
  case 0
  then show ?case by (simp add: skip_empty.simps)
next
  case (Suc d)
  then have "v < length bs" "bs ! v = []" by auto
  moreover have "skip_empty bs (Some (length bs)) (Suc v) = Some (length bs)"
    using Suc.prems Suc.hyps(2) by (intro Suc.hyps(1)) auto
  ultimately show ?case
    by (subst skip_empty.simps) simp
qed

text \<open>
  Claim C9. Advancing an iterator of the set \<open>s\<close> with the prefix \<^verbatim>\<open>++\<close>: an iterator
  already at the end (\<open>itVector = itVectorEnd\<close>) is unchanged; an iterator at element \<open>i\<close>
  of bucket \<open>v\<close> moves to element \<open>i + 1\<close> of that bucket if there is one, else to the
  first element of the next non-empty bucket \<open>j\<close> (every bucket between \<open>v\<close> and \<open>j\<close> being
  empty), and it becomes the end iterator \<^verbatim>\<open>end()\<close> when every later bucket is empty.
\<close>

theorem iterator_inc_state_machine:
  "(itVector it = itVectorEnd it \<longrightarrow> iterator_inc (buckets s) it = Some it) \<and>
   (itVectorEnd it = Some (bucket_count s) \<and> itVector it = Some v \<and> v < bucket_count s \<and>
    itList it = Some i \<and> i < length (buckets s ! v) \<longrightarrow>
      (Suc i < length (buckets s ! v) \<longrightarrow>
         iterator_inc (buckets s) it = Some (it\<lparr>itList := Some (Suc i)\<rparr>)) \<and>
      (Suc i = length (buckets s ! v) \<longrightarrow>
         (\<forall>j. v < j \<and> j < bucket_count s \<and> buckets s ! j \<noteq> [] \<and>
               (\<forall>k. v < k \<and> k < j \<longrightarrow> buckets s ! k = []) \<longrightarrow>
            iterator_inc (buckets s) it = Some (it\<lparr>itList := Some 0, itVector := Some j\<rparr>)) \<and>
         ((\<forall>k. v < k \<and> k < bucket_count s \<longrightarrow> buckets s ! k = []) \<longrightarrow>
            iterator_inc (buckets s) it = end_us s)))"
proof (intro conjI impI allI; (elim conjE)?)
  assume "itVector it = itVectorEnd it"
  then show "iterator_inc (buckets s) it = Some it"
    by (simp add: iterator_inc_def)
next
  assume wf: "itVectorEnd it = Some (bucket_count s)" "itVector it = Some v" "v < bucket_count s"
    "itList it = Some i" "i < length (buckets s ! v)"
    and more: "Suc i < length (buckets s ! v)"
  then show "iterator_inc (buckets s) it = Some (it\<lparr>itList := Some (Suc i)\<rparr>)"
    by (simp add: iterator_inc_def bucket_count_def list_end_def)
next
  fix j
  assume wf: "itVectorEnd it = Some (bucket_count s)" "itVector it = Some v" "v < bucket_count s"
    "itList it = Some i" "i < length (buckets s ! v)"
    and last: "Suc i = length (buckets s ! v)"
    and j: "v < j" "j < bucket_count s" "buckets s ! j \<noteq> []"
      "\<forall>k. v < k \<and> k < j \<longrightarrow> buckets s ! k = []"
  have "skip_empty (buckets s) (Some (length (buckets s))) (Suc v) = Some j"
    using j by (intro skip_empty_found) (auto simp: bucket_count_def)
  then show "iterator_inc (buckets s) it = Some (it\<lparr>itList := Some 0, itVector := Some j\<rparr>)"
    using wf last j by (simp add: iterator_inc_def bucket_count_def list_end_def list_begin_def)
next
  assume wf: "itVectorEnd it = Some (bucket_count s)" "itVector it = Some v" "v < bucket_count s"
    "itList it = Some i" "i < length (buckets s ! v)"
    and last: "Suc i = length (buckets s ! v)"
    and none: "\<forall>k. v < k \<and> k < bucket_count s \<longrightarrow> buckets s ! k = []"
  have "skip_empty (buckets s) (Some (length (buckets s))) (Suc v) = Some (length (buckets s))"
    using wf none by (intro skip_empty_end) (auto simp: bucket_count_def)
  moreover have "buckets s \<noteq> []"
    using wf by (auto simp: bucket_count_def)
  ultimately show "iterator_inc (buckets s) it = end_us s"
    using wf last by (cases it) (simp add: iterator_inc_def bucket_count_def list_end_def end_us_def)
qed

theorem iterator_inc_state_machine_witness:
  "iterator_inc (buckets three_buckets) \<lparr>itVectorEnd = Some 3, itList = None, itVector = Some 3\<rparr>
     = Some \<lparr>itVectorEnd = Some 3, itList = None, itVector = Some 3\<rparr> \<and>
   iterator_inc (buckets three_buckets) \<lparr>itVectorEnd = Some 3, itList = Some 0, itVector = Some 0\<rparr>
     = Some \<lparr>itVectorEnd = Some 3, itList = Some 1, itVector = Some 0\<rparr> \<and>
   iterator_inc (buckets three_buckets) \<lparr>itVectorEnd = Some 3, itList = Some 1, itVector = Some 0\<rparr>
     = Some \<lparr>itVectorEnd = Some 3, itList = Some 0, itVector = Some 2\<rparr> \<and>
   iterator_inc (buckets three_buckets) \<lparr>itVectorEnd = Some 3, itList = Some 0, itVector = Some 2\<rparr>
     = end_us three_buckets \<and>
   end_us three_buckets = Some \<lparr>itVectorEnd = Some 3, itList = None, itVector = Some 3\<rparr>"
proof -
  have bc: "bucket_count three_buckets = 3"
    by (simp add: three_buckets_def bucket_count_def)
  have bs: "buckets three_buckets = [[3, 6], [], [5]]"
    by (simp add: three_buckets_def)
  have between: "\<forall>k. 0 < k \<and> k < (2::nat) \<longrightarrow> [[3, 6], [], [5 :: nat]] ! k = []"
    by (auto simp: nth_Cons' less_Suc_eq numeral_2_eq_2)
  have after: "\<forall>k. 2 < k \<and> k < (3::nat) \<longrightarrow> [[3, 6], [], [5 :: nat]] ! k = []"
    by auto
  have at_end: "iterator_inc (buckets three_buckets)
      \<lparr>itVectorEnd = Some 3, itList = None, itVector = Some 3\<rparr>
     = Some \<lparr>itVectorEnd = Some 3, itList = None, itVector = Some 3\<rparr>"
    using iterator_inc_state_machine
      [of "\<lparr>itVectorEnd = Some 3, itList = None, itVector = Some 3\<rparr>" three_buckets]
    by simp
  have within: "iterator_inc (buckets three_buckets)
      \<lparr>itVectorEnd = Some 3, itList = Some 0, itVector = Some 0\<rparr>
     = Some \<lparr>itVectorEnd = Some 3, itList = Some 1, itVector = Some 0\<rparr>"
    using iterator_inc_state_machine
      [of "\<lparr>itVectorEnd = Some 3, itList = Some 0, itVector = Some 0\<rparr>" three_buckets 0 0]
    by (simp add: bc bs)
  have across: "iterator_inc (buckets three_buckets)
      \<lparr>itVectorEnd = Some 3, itList = Some 1, itVector = Some 0\<rparr>
     = Some \<lparr>itVectorEnd = Some 3, itList = Some 0, itVector = Some 2\<rparr>"
    using iterator_inc_state_machine
      [of "\<lparr>itVectorEnd = Some 3, itList = Some 1, itVector = Some 0\<rparr>" three_buckets 0 1]
      between
    by (simp add: bc bs)
  have to_end: "iterator_inc (buckets three_buckets)
      \<lparr>itVectorEnd = Some 3, itList = Some 0, itVector = Some 2\<rparr>
     = end_us three_buckets"
    using iterator_inc_state_machine
      [of "\<lparr>itVectorEnd = Some 3, itList = Some 0, itVector = Some 2\<rparr>" three_buckets 2 0]
      after
    by (simp add: bc bs)
  have "end_us three_buckets = Some \<lparr>itVectorEnd = Some 3, itList = None, itVector = Some 3\<rparr>"
    by (simp add: end_us_def bc list_end_def)
  with at_end within across to_end show ?thesis
    by simp
qed

text \<open>
  Claim C10. For both iterator types the postfix \<^verbatim>\<open>++\<close> leaves the iterator it is applied
  to unchanged and returns an iterator at the same position, whatever the position; the
  prefix form does advance, as it does here from the first of two elements.
\<close>

theorem postfix_increment_no_advance:
  "iterator_post_inc it n = (it, it) \<and>
   local_iterator_post_inc lit n = (lit, lit) \<and>
   iterator_inc [[x, y]] \<lparr>itVectorEnd = Some 1, itList = Some 0, itVector = Some 0\<rparr>
     = Some \<lparr>itVectorEnd = Some 1, itList = Some 1, itVector = Some 0\<rparr> \<and>
   local_iterator_inc [x, y] \<lparr>l_itList = Some 0\<rparr> = \<lparr>l_itList = Some 1\<rparr>"
  by (simp add: iterator_post_inc_def local_iterator_post_inc_def iterator_inc_def
      local_iterator_inc_def list_end_def Let_def)

section \<open>Single precision numbers that are exact\<close>

lemma bitlen_bounds: "0 < n \<Longrightarrow> 2 ^ (bitlen n - 1) \<le> n \<and> n < 2 ^ bitlen n"
proof (induction n rule: bitlen.induct)
  case (1 n)
  show ?case
  proof (cases "n div 2 = 0")
    case True
    with "1.prems" have "n = 1" by (simp add: div_eq_0_iff)
    then show ?thesis by (simp add: bitlen.simps)
  next
    case False
    then have h: "0 < n div 2" by simp
    have b: "bitlen n = Suc (bitlen (n div 2))"
      using "1.prems" by (subst bitlen.simps) simp
    have pos: "0 < bitlen (n div 2)"
      using h by (subst bitlen.simps) simp
    from "1.IH" "1.prems" h
    have ih: "2 ^ (bitlen (n div 2) - 1) \<le> n div 2" "n div 2 < 2 ^ bitlen (n div 2)"
      by simp_all
    have "(2::nat) ^ bitlen (n div 2) = 2 * 2 ^ (bitlen (n div 2) - 1)"
      using pos by (cases "bitlen (n div 2)") simp_all
    with ih(1) have "2 ^ bitlen (n div 2) \<le> n" by linarith
    moreover from ih(2) have "n < 2 * 2 ^ bitlen (n div 2)" by linarith
    ultimately show ?thesis by (simp add: b)
  qed
qed

lemma ilog2_unique:
  assumes "0 < q" "q * 2 ^ k \<le> p" "p < q * 2 ^ Suc k"
  shows "ilog2 p q = int k"
proof -
  have p: "0 < p" using assms by (metis less_le_trans nat_0_less_mult_iff zero_less_numeral zero_less_power)
  note bp = bitlen_bounds [OF p] and bq = bitlen_bounds [OF assms(1)]
  have "(2::nat) ^ (bitlen q - 1 + k) = 2 ^ (bitlen q - 1) * 2 ^ k"
    by (simp add: power_add)
  also have "\<dots> \<le> q * 2 ^ k"
    using bq by (intro mult_le_mono1) simp
  also have "\<dots> \<le> p" by fact
  also have "p < 2 ^ bitlen p" using bp by simp
  finally have lo: "bitlen q - 1 + k < bitlen p"
    by (rule power_less_imp_less_exp [rotated]) simp
  have "(2::nat) ^ (bitlen p - 1) \<le> p" using bp by simp
  also have "p < q * 2 ^ Suc k" by fact
  also have "\<dots> \<le> 2 ^ bitlen q * 2 ^ Suc k"
    using bq by (intro mult_le_mono1) simp
  also have "\<dots> = 2 ^ (bitlen q + Suc k)"
    by (simp add: power_add)
  finally have hi: "bitlen p - 1 < bitlen q + Suc k"
    by (rule power_less_imp_less_exp [rotated]) simp
  have qpos: "0 < bitlen q" using assms(1) by (subst bitlen.simps) simp
  from lo hi qpos consider "bitlen p = bitlen q + k" | "bitlen p = bitlen q + Suc k"
    by linarith
  then show ?thesis
  proof cases
    case 1
    then show ?thesis using assms(2) by (simp add: ilog2_def)
  next
    case 2
    then have "int (bitlen p) - int (bitlen q) = int (Suc k)" by simp
    then show ?thesis using assms(3) by (simp add: ilog2_def Let_def del: of_nat_Suc power_Suc)
  qed
qed

lemma round_half_even_exact: "0 < c \<Longrightarrow> round_half_even (a * c) c = a"
  by (simp add: round_half_even_def)

lemma round_float_exact:
  assumes "0 < c" "2 ^ k \<le> n" "n < 2 ^ Suc k" "k \<le> 23"
  shows "round_float (n * c) c = Float32 (n * 2 ^ (23 - k)) (int k - 23)"
proof -
  have l: "ilog2 (n * c) c = int k"
    using assms by (intro ilog2_unique) (simp_all add: mult.commute)
  have n: "0 < n"
    using assms(2) by (metis less_le_trans zero_less_numeral zero_less_power)
  have e: "max (int k - 23) (- 149) = int k - 23" "nat (23 - int k) = 23 - k"
    "nat (int k - 23) = 0"
    using assms(4) by simp_all
  have "n * c * 2 ^ (23 - k) = n * 2 ^ (23 - k) * c"
    by (simp add: mult_ac)
  then have m: "round_half_even (n * c * 2 ^ (23 - k)) c = n * 2 ^ (23 - k)"
    using assms(1) by (simp only: round_half_even_exact)
  have "n * 2 ^ (23 - k) < 2 ^ Suc k * 2 ^ (23 - k)"
    using assms(3) by (intro mult_strict_right_mono) simp_all
  also have "\<dots> = (2::nat) ^ 24"
    using assms(4) by (simp only: power_add [symmetric]) simp
  finally have "n * 2 ^ (23 - k) \<noteq> 2 ^ 24"
    by simp
  then show ?thesis
    using n assms(1) by (simp add: round_float_def l e m Let_def)
qed

lemma float_ceil_exact:
  assumes "k \<le> 23"
  shows "float_ceil (Float32 (n * 2 ^ (23 - k)) (int k - 23)) = n"
proof (cases "k = 23")
  case True
  then show ?thesis by simp
next
  case False
  with assms have neg: "\<not> 0 \<le> int k - 23" "nat (23 - int k) = 23 - k"
    by simp_all
  have "(n * 2 ^ (23 - k) + 2 ^ (23 - k) - 1) div 2 ^ (23 - k)
      = (2 ^ (23 - k) - 1 + n * 2 ^ (23 - k)) div (2::nat) ^ (23 - k)"
    by (simp add: add.commute)
  also have "\<dots> = n + (2 ^ (23 - k) - 1) div (2::nat) ^ (23 - k)"
    by (rule div_mult_self1) simp
  also have "\<dots> = n"
    by simp
  finally show ?thesis
    using neg by simp
qed

lemma min_buckets_required_exact:
  assumes "maxLoadFactor s = float_of_nat 1" "n \<le> 2 ^ 24"
  shows "min_buckets_required n s = Some n"
proof -
  have mlf: "maxLoadFactor s = Float32 8388608 (- 23)"
    using assms(1) by (simp only: float_of_nat_1)
  consider "n = 0" | "n = 2 ^ 24" | "0 < n" "n < 2 ^ 24"
    using assms(2) by linarith
  then show ?thesis
  proof cases
    case 1
    then show ?thesis
      by (simp add: min_buckets_required_def mlf float_of_nat_0
          round_float_def size_t_of_integral_def)
  next
    case 2
    have "float_of_nat (2 ^ 24) = Float32 8388608 1"
      by (simp add: float_of_nat_def round_float_def ilog2_def bitlen.simps
          round_half_even_def Let_def)
    moreover have "float_div (Float32 8388608 1) (Float32 8388608 (- 23))
        = Some (Float32 8388608 1)"
      by (simp add: round_float_def ilog2_def bitlen.simps round_half_even_def Let_def)
    ultimately show ?thesis
      using 2 by (simp add: min_buckets_required_def mlf size_t_of_integral_def)
  next
    case 3
    define k where "k = bitlen n - 1"
    have "0 < bitlen n" using 3(1) by (subst bitlen.simps) simp
    then have sk: "Suc k = bitlen n" by (simp add: k_def)
    have k: "2 ^ k \<le> n" "n < 2 ^ Suc k"
      using bitlen_bounds [OF 3(1)] by (simp_all add: sk) (simp add: k_def)
    have "(2::nat) ^ k < 2 ^ 24"
      using k(1) 3(2) by (rule le_less_trans)
    then have "k < 24"
      by (rule power_less_imp_less_exp [rotated]) simp
    then have k23: "k \<le> 23" by simp
    have f: "float_of_nat n = Float32 (n * 2 ^ (23 - k)) (int k - 23)"
      using round_float_exact [of 1 k n] k k23 by (simp add: float_of_nat_def)
    have "n * 2 ^ (23 - k) * 2 ^ k = n * (2 ^ (23 - k) * 2 ^ k)"
      by (simp only: mult.assoc)
    also have "\<dots> = n * 2 ^ 23"
      using k23 by (simp only: power_add [symmetric]) simp
    finally have p: "n * 2 ^ (23 - k) * 2 ^ k = n * 8388608"
      by simp
    have "round_float (n * 8388608) 8388608 = Float32 (n * 2 ^ (23 - k)) (int k - 23)"
      using k k23 by (intro round_float_exact) simp_all
    then have d: "float_div (Float32 (n * 2 ^ (23 - k)) (int k - 23)) (Float32 8388608 (- 23))
        = Some (Float32 (n * 2 ^ (23 - k)) (int k - 23))"
      by (simp add: p)
    have "n < 2 ^ 64"
      using 3(2) by simp
    then show ?thesis
      using k23 by (simp add: min_buckets_required_def mlf f d
          float_ceil_exact size_t_of_integral_def del: float_div.simps float_ceil.simps)
  qed
qed

section \<open>Properties of reserve\<close>

lemma min_buckets_required_100:
  "maxLoadFactor s = round_float 3 4 \<Longrightarrow> min_buckets_required 100 s = Some 134"
  by (simp add: min_buckets_required_def float_of_nat_def round_float_def ilog2_def
      bitlen.simps round_half_even_def size_t_of_integral_def Let_def)

lemma float_val_three_quarters: "float_val (round_float 3 4) = 3 / 4"
  by (simp add: round_float_def ilog2_def bitlen.simps round_half_even_def Let_def)

lemma min_buckets_required_2_24_1:
  "min_buckets_required 16777217 (unordered_set_default :: nat unordered_set) = Some 16777216"
  by (simp add: min_buckets_required_def float_of_nat_def round_float_def ilog2_def
      bitlen.simps round_half_even_def size_t_of_integral_def Let_def
      unordered_set_default_def unordered_set_n_def)

lemma float_ceil_is_ceiling: "int (float_ceil q) = \<lceil>float_val q\<rceil>"
proof (cases q)
  case (Float32 m e)
  show ?thesis
  proof (cases "0 \<le> e")
    case True
    have "\<lceil>(of_nat (m * 2 ^ nat e) :: rat)\<rceil> = int (m * 2 ^ nat e)"
      by (rule ceiling_of_nat)
    with True Float32 show ?thesis by simp
  next
    case False
    define d :: nat where "d = 2 ^ nat (- e)"
    define k :: nat where "k = (m + d - 1) div d"
    have d: "0 < d" by (simp add: d_def)
    have "k * d \<le> m + d - 1"
      by (simp add: k_def)
    then have lower: "k * d < m + d"
      using d by linarith
    have "m + d - 1 < d + k * d"
      unfolding k_def using d by (rule dividend_less_div_times)
    then have upper: "m \<le> k * d"
      using d by linarith
    have "(of_nat (k * d) :: rat) < of_nat (m + d)"
      using lower by (simp only: of_nat_less_iff)
    then have "(of_nat k :: rat) * of_nat d < of_nat m + of_nat d"
      by simp
    then have "(of_nat k :: rat) < of_nat m / of_nat d + 1"
      using d by (simp add: field_simps)
    then have l: "of_int (int k) - 1 < (of_nat m :: rat) / of_nat d"
      by simp
    have "(of_nat m :: rat) \<le> of_nat (k * d)"
      using upper by (simp only: of_nat_le_iff)
    then have "(of_nat m :: rat) \<le> of_nat k * of_nat d"
      by simp
    then have u: "(of_nat m :: rat) / of_nat d \<le> of_int (int k)"
      using d by (simp add: field_simps)
    have "\<lceil>(of_nat m :: rat) / of_nat d\<rceil> = int k"
      using l u by (rule ceiling_unique)
    then have "\<lceil>(of_nat m :: rat) / of_nat d\<rceil> = int ((m + d - 1) div d)"
      by (simp add: k_def)
    with False Float32 show ?thesis by (simp add: d_def)
  qed
qed

lemma float_div_100_three_quarters:
  "float_div (float_of_nat 100) (round_float 3 4) = Some (Float32 8738133 (- 16))"
  by (simp add: float_of_nat_def round_float_def ilog2_def bitlen.simps round_half_even_def
      Let_def)

text \<open>
  Claim C8, as stated: for every \<open>n\<close>, after \<^verbatim>\<open>reserve(n)\<close> the bucket count is at least
  \<open>ceil(n / maxLoadFactor)\<close>. It fails where the conversion of \<open>n\<close> to \<^verbatim>\<open>float\<close> rounds
  down: with \<open>maxLoadFactor = 1.0\<close>, \<^verbatim>\<open>reserve(16777217)\<close> on the set built by
  \<^verbatim>\<open>unordered_set()\<close> leaves 16777216 buckets, one fewer than \<open>ceil(16777217 / 1.0)\<close>.
\<close>

theorem reserve_counterexample:
  "map_option bucket_count (reserve id 16777217 (unordered_set_default :: nat unordered_set))
     = Some 16777216 \<and>
   float_val (maxLoadFactor (unordered_set_default :: nat unordered_set)) = 1 \<and>
   \<lceil>16777217 / float_val (maxLoadFactor (unordered_set_default :: nat unordered_set))\<rceil>
     = (16777217 :: int)"
  by (simp add: reserve_def min_buckets_required_2_24_1 bucket_count_rehash)
     (simp add: unordered_set_default_def unordered_set_n_def bucket_count_def float_of_nat_Suc_0)

text \<open>
  Claim C8, amended. For every \<open>n\<close>, where the single precision quotient \<open>q\<close> of \<open>n\<close>
  (converted to \<^verbatim>\<open>float\<close>) by \<open>maxLoadFactor\<close> exists and its ceiling fits \<^verbatim>\<open>size_t\<close>,
  \<^verbatim>\<open>reserve(n)\<close> returns with a bucket count of at least \<open>ceil(q)\<close>, and the set is
  unchanged if the count already met that bound. With \<open>maxLoadFactor = 1.0\<close> and
  \<open>n \<le> 2 ^ 24\<close> that bound is \<open>n\<close>, which is \<open>ceil(n / maxLoadFactor)\<close>; and
  \<^verbatim>\<open>reserve(100)\<close> with \<open>maxLoadFactor = 0.75\<close> yields a bucket count of at least 134.
\<close>

theorem reserve_bucket_count:
  "(\<forall>q. float_div (float_of_nat n) (maxLoadFactor s) = Some q \<and> float_ceil q < 2 ^ 64 \<longrightarrow>
      int (float_ceil q) = \<lceil>float_val q\<rceil> \<and>
      (\<exists>s'. reserve h n s = Some s' \<and> float_ceil q \<le> bucket_count s' \<and>
            (float_ceil q \<le> bucket_count s \<longrightarrow> s' = s))) \<and>
   float_val (float_of_nat 1) = 1 \<and>
   (maxLoadFactor s = float_of_nat 1 \<and> n \<le> 2 ^ 24 \<longrightarrow>
      (\<exists>s'. reserve h n s = Some s' \<and> n \<le> bucket_count s' \<and> (n \<le> bucket_count s \<longrightarrow> s' = s))) \<and>
   float_val (round_float 3 4) = 3 / 4 \<and>
   (maxLoadFactor s = round_float 3 4 \<longrightarrow>
      (\<exists>s'. reserve h 100 s = Some s' \<and> 134 \<le> bucket_count s'))"
proof (intro conjI allI impI)
  fix q
  assume "float_div (float_of_nat n) (maxLoadFactor s) = Some q \<and> float_ceil q < 2 ^ 64"
  then have r: "reserve h n s = Some (rehash h (float_ceil q) s)"
    by (simp add: reserve_def min_buckets_required_def size_t_of_integral_def)
  show "int (float_ceil q) = \<lceil>float_val q\<rceil>"
    by (rule float_ceil_is_ceiling)
  show "\<exists>s'. reserve h n s = Some s' \<and> float_ceil q \<le> bucket_count s' \<and>
            (float_ceil q \<le> bucket_count s \<longrightarrow> s' = s)"
    using r by (simp add: bucket_count_rehash) (simp add: rehash_def)
next
  show "float_val (float_of_nat 1) = 1"
    by (simp add: float_of_nat_Suc_0)
next
  assume "maxLoadFactor s = float_of_nat 1 \<and> n \<le> 2 ^ 24"
  then have "reserve h n s = Some (rehash h n s)"
    by (simp add: reserve_def min_buckets_required_exact)
  then show "\<exists>s'. reserve h n s = Some s' \<and> n \<le> bucket_count s' \<and>
      (n \<le> bucket_count s \<longrightarrow> s' = s)"
    by (simp add: bucket_count_rehash) (simp add: rehash_def)
next
  show "float_val (round_float 3 4) = 3 / 4"
    by (rule float_val_three_quarters)
next
  assume "maxLoadFactor s = round_float 3 4"
  then have "reserve h 100 s = Some (rehash h 134 s)"
    by (simp add: reserve_def min_buckets_required_100)
  then show "\<exists>s'. reserve h 100 s = Some s' \<and> 134 \<le> bucket_count s'"
    by (simp add: bucket_count_rehash)
qed

theorem reserve_bucket_count_witness:
  "maxLoadFactor three_quarters = round_float 3 4 \<and>
   bucket_count three_quarters = 8 \<and>
   float_div (float_of_nat 100) (maxLoadFactor three_quarters) = Some (Float32 8738133 (- 16)) \<and>
   float_ceil (Float32 8738133 (- 16)) = 134 \<and>
   \<lceil>float_val (Float32 8738133 (- 16))\<rceil> = 134 \<and>
   map_option bucket_count (reserve id 100 three_quarters) = Some 134 \<and>
   maxLoadFactor (unordered_set_default :: nat unordered_set) = float_of_nat 1 \<and>
   (9 :: nat) \<le> 2 ^ 24 \<and>
   map_option bucket_count (reserve id 9 (unordered_set_default :: nat unordered_set)) = Some 9"
proof -
  have m: "maxLoadFactor three_quarters = round_float 3 4"
    by (simp add: three_quarters_def set_max_load_factor_def)
  have b: "bucket_count three_quarters = 8"
    by (simp add: three_quarters_def set_max_load_factor_def unordered_set_default_def
        unordered_set_n_def bucket_count_def)
  have q: "float_div (float_of_nat 100) (maxLoadFactor three_quarters)
      = Some (Float32 8738133 (- 16))"
    by (simp add: m float_div_100_three_quarters)
  have c: "float_ceil (Float32 8738133 (- 16)) = 134"
    by simp
  have r: "map_option bucket_count (reserve id 100 three_quarters) = Some 134"
    by (simp add: reserve_def min_buckets_required_100 m bucket_count_rehash b)
  from reserve_bucket_count [of 100 three_quarters id] q c
  have v: "\<lceil>float_val (Float32 8738133 (- 16))\<rceil> = 134"
    by simp
  have d: "maxLoadFactor (unordered_set_default :: nat unordered_set) = float_of_nat 1"
    by (simp add: unordered_set_default_def unordered_set_n_def)
  have b8: "bucket_count (unordered_set_default :: nat unordered_set) = 8"
    by (simp add: unordered_set_default_def unordered_set_n_def bucket_count_def)
  from reserve_bucket_count [of 9 "unordered_set_default :: nat unordered_set" id] d
  have ex: "\<exists>s'. reserve id 9 (unordered_set_default :: nat unordered_set) = Some s' \<and>
      9 \<le> bucket_count s'"
    by auto
  have "reserve id 9 (unordered_set_default :: nat unordered_set)
      = Some (rehash id 9 unordered_set_default)"
    by (simp add: reserve_def min_buckets_required_exact d)
  then have r9: "map_option bucket_count (reserve id 9 (unordered_set_default :: nat unordered_set))
      = Some 9"
    by (simp add: bucket_count_rehash b8)
  from m b q c r v d ex r9 show ?thesis
    by simp
qed

section \<open>find, insert and erase\<close>

lemma list_find_None: "list_find xs t = None \<longleftrightarrow> t \<notin> set xs"
  by (induction xs) auto

lemma list_find_Some: "list_find xs t = Some i \<Longrightarrow> i < length xs \<and> xs ! i = t"
  by (induction xs arbitrary: i) (auto split: if_splits)

lemma find_us_present:
  assumes "well_placed h (buckets s)" "t \<in> set (concat (buckets s))"
  shows "\<exists>it. find_us h s t = Some it \<and> iterator_deref (buckets s) it = Some t \<and>
              Some it \<noteq> end_us s"
proof -
  from assms(2) obtain xs where "xs \<in> set (buckets s)" "t \<in> set xs"
    by auto
  then obtain b where b: "b < length (buckets s)" "t \<in> set (buckets s ! b)"
    by (metis in_set_conv_nth)
  with assms(1) have hb: "h t mod length (buckets s) = b"
    by (auto simp: well_placed_def)
  from b obtain i where i: "list_find (buckets s ! b) t = Some i"
    using list_find_None [of "buckets s ! b" t] by auto
  then have "i < length (buckets s ! b)" "buckets s ! b ! i = t"
    using list_find_Some by fastforce+
  with b hb i show ?thesis
    by (auto simp: find_us_def bucket_def bucket_count_def list_end_def iterator_deref_def
        end_us_def)
qed

lemma find_us_absent:
  assumes "0 < bucket_count s" "t \<notin> set (concat (buckets s))"
  shows "find_us h s t = end_us s"
proof -
  have "h t mod length (buckets s) < length (buckets s)"
    using assms(1) by (simp add: bucket_count_def)
  then have "buckets s ! (h t mod length (buckets s)) \<in> set (buckets s)"
    by (rule nth_mem)
  then have "t \<notin> set (buckets s ! (h t mod length (buckets s)))"
    using assms(2) by auto
  then have "list_find (buckets s ! (h t mod length (buckets s))) t = None"
    by (simp add: list_find_None)
  then show ?thesis
    using assms(1) by (simp add: find_us_def bucket_def bucket_count_def list_end_def)
qed

text \<open>
  Claim C1. \<^verbatim>\<open>insert(t)\<close> of a value not in the set is to append \<open>t\<close> to bucket
  \<open>hash(t) % bucket_count()\<close>, add one to the element count and return an iterator at the
  new element with \<open>true\<close>. In the set built by \<^verbatim>\<open>unordered_set()\<close>, \<^verbatim>\<open>insert(5)\<close>
  returns the set as it was: bucket 5 stays empty, \<^verbatim>\<open>size()\<close> stays 0, and the iterator
  returned is the default constructed one, which stands at no element.
\<close>

theorem insert_absent_value_not_stored:
  "insert_us (5 :: nat) unordered_set_default = (unordered_set_default, (iterator_default, True)) \<and>
   bucket id (unordered_set_default :: nat unordered_set) 5 = Some 5 \<and>
   buckets (fst (insert_us (5 :: nat) unordered_set_default)) ! 5 = [] \<and>
   size_us (fst (insert_us (5 :: nat) unordered_set_default)) = 0 \<and>
   iterator_deref (buckets (fst (insert_us (5 :: nat) unordered_set_default)))
     (fst (snd (insert_us (5 :: nat) unordered_set_default))) = None"
  by (simp add: insert_us_def unordered_set_default_def unordered_set_n_def replicate_8
      bucket_def bucket_count_def size_us_def iterator_deref_def iterator_default_def)

text \<open>
  Claim C2. \<^verbatim>\<open>erase(t)\<close> is to remove the element equal to \<open>t\<close> and subtract one from the
  element count. With 3 stored in bucket 3 of eight, \<^verbatim>\<open>erase(3)\<close> returns the set as it
  was and a default constructed iterator: 3 is still found and \<^verbatim>\<open>size()\<close> is still 1.
\<close>

theorem erase_present_key_not_removed:
  "erase 3 one_in_eight = (one_in_eight, iterator_default) \<and>
   find_us id (fst (erase 3 one_in_eight)) 3
     = Some \<lparr>itVectorEnd = Some 8, itList = Some 0, itVector = Some 3\<rparr> \<and>
   size_us (fst (erase 3 one_in_eight)) = 1"
  by (simp add: erase_def one_in_eight_def find_us_def bucket_def bucket_count_def
      list_end_def size_us_def)

text \<open>
  Claim C3. Starting from 8 buckets with \<open>maxLoadFactor = 1.0\<close>, inserting the 9 integers
  \<open>0..8\<close> is to leave at least 16 buckets and \<^verbatim>\<open>size() == 9\<close>. The nine calls leave 8
  buckets and \<^verbatim>\<open>size() == 0\<close>.
\<close>

theorem insert_nine_no_growth:
  "bucket_count (unordered_set_default :: nat unordered_set) = 8 \<and>
   maxLoadFactor (unordered_set_default :: nat unordered_set) = float_of_nat 1 \<and>
   bucket_count (insert_each [0, 1, 2, 3, 4, 5, 6, 7, 8 :: nat] unordered_set_default) = 8 \<and>
   size_us (insert_each [0, 1, 2, 3, 4, 5, 6, 7, 8 :: nat] unordered_set_default) = 0"
  by (simp add: insert_us_def unordered_set_default_def unordered_set_n_def
      bucket_count_def size_us_def)

text \<open>
  Claim C4. \<^verbatim>\<open>insert(t)\<close> of a value already in the set is to return an iterator at the
  existing element with \<open>false\<close>, without mutation. With 3 stored in bucket 3 of eight
  (where \<^verbatim>\<open>find(3)\<close> stands), \<^verbatim>\<open>insert(3)\<close> leaves the set as it was but returns
  \<open>true\<close> with the default constructed iterator, which stands at no element; and the
  second of two calls \<^verbatim>\<open>insert(3)\<close> on the set built by \<^verbatim>\<open>unordered_set()\<close> returns
  the same.
\<close>

theorem insert_present_value_returns_true:
  "find_us id one_in_eight 3
     = Some \<lparr>itVectorEnd = Some 8, itList = Some 0, itVector = Some 3\<rparr> \<and>
   insert_us 3 one_in_eight = (one_in_eight, (iterator_default, True)) \<and>
   iterator_deref (buckets one_in_eight) (fst (snd (insert_us 3 one_in_eight))) = None \<and>
   snd (insert_us (3 :: nat) (fst (insert_us 3 unordered_set_default))) = (iterator_default, True)"
  by (simp add: insert_us_def one_in_eight_def find_us_def bucket_def bucket_count_def
      list_end_def iterator_deref_def iterator_default_def)

text \<open>
  Claim C5. \<^verbatim>\<open>load_factor()\<close> is to be the element count divided by the bucket count in
  floating point: 0.875 for 7 elements in 8 buckets, 1.125 for 9 in 8. The quotient is
  taken of two \<^verbatim>\<open>size_t\<close> values, so the results are 0 and 1.
\<close>

theorem load_factor_integer_division:
  "size_us seven_in_eight = 7 \<and> bucket_count seven_in_eight = 8 \<and>
   load_factor seven_in_eight = Some (Float32 0 0) \<and>
   float_val (Float32 0 0) = 0 \<and>
   size_us nine_in_eight = 9 \<and> bucket_count nine_in_eight = 8 \<and>
   load_factor nine_in_eight = Some (Float32 8388608 (- 23)) \<and>
   float_val (Float32 8388608 (- 23)) = 1"
  by (simp add: load_factor_def size_us_def bucket_count_def seven_in_eight_def
      nine_in_eight_def float_of_nat_0 float_of_nat_Suc_0)

text \<open>
  Claim C7. \<^verbatim>\<open>find(t)\<close> is to return an iterator at the element equal to \<open>t\<close> when the
  set holds one and the end iterator otherwise; in particular every element inserted and
  not erased is to be found. After \<^verbatim>\<open>insert(5)\<close> into the set built by
  \<^verbatim>\<open>unordered_set()\<close>, \<^verbatim>\<open>find(5)\<close> is the end iterator, whatever the hash function.
\<close>

theorem find_after_insert_is_end:
  "find_us h (fst (insert_us (5 :: nat) unordered_set_default)) 5
     = Some \<lparr>itVectorEnd = Some 8, itList = None, itVector = Some 8\<rparr> \<and>
   end_us (fst (insert_us (5 :: nat) unordered_set_default))
     = Some \<lparr>itVectorEnd = Some 8, itList = None, itVector = Some 8\<rparr>"
proof -
  have "h 5 mod 8 < 8" by simp
  then have "[[], [], [], [], [], [], [], []] ! (h 5 mod 8) = ([] :: nat list)"
    by (auto simp: nth_Cons' )
  then show ?thesis
    by (simp add: insert_us_def unordered_set_default_def unordered_set_n_def replicate_8
      find_us_def bucket_def bucket_count_def list_end_def end_us_def)
qed

end
